theory Spec2Isabelle
  imports Main "HOL-Library.Word"
begin

section \<open>Log levels and log records\<close>

text \<open>
  The severity enumeration of \<^verbatim>\<open>logger.hpp\<close>, in the order in which
  \<^verbatim>\<open>LogLevel_toStr\<close> switches over it.
\<close>

datatype LogLevel = ANY | DEBUG | INFO | WARNING | ERROR | CRITICAL

text \<open>The escape character that starts an ANSI colour sequence (\<^verbatim>\<open>\033\<close>).\<close>

definition ESC :: char where
  "ESC = CHR 0x1B"

definition LogLevel_toStr :: "LogLevel \<Rightarrow> bool \<Rightarrow> string" where
  "LogLevel_toStr level with_color =
     (let name = (case level of
                    ANY \<Rightarrow> ''ANY''
                  | DEBUG \<Rightarrow> ''DEBUG''
                  | INFO \<Rightarrow> ''INFO''
                  | WARNING \<Rightarrow> ''WARNING''
                  | ERROR \<Rightarrow> ''ERROR''
                  | CRITICAL \<Rightarrow> ''CRITICAL'')
      in if with_color then
           (let color_code = (case level of
                    ANY \<Rightarrow> ESC # ''[97m''
                  | DEBUG \<Rightarrow> ESC # ''[96m''
                  | INFO \<Rightarrow> ESC # ''[92m''
                  | WARNING \<Rightarrow> ESC # ''[93m''
                  | ERROR \<Rightarrow> ESC # ''[91m''
                  | CRITICAL \<Rightarrow> ESC # ''[31m'')
            in color_code @ name @ (ESC # ''[0m''))
         else name)"

text \<open>
  A log record. The time stamp is a \<^verbatim>\<open>double\<close> that the code only stores and
  prints; it is kept as a type parameter.
\<close>

record 't Log =
  source :: string
  time :: 't
  level :: LogLevel
  message :: string

section \<open>Filterer: the filter chain of a sink\<close>

text \<open>
  A \<^verbatim>\<open>Filter\<close> is an object with one virtual method
  \<^verbatim>\<open>bool filter(Log)\<close>, taken as a predicate on the record; the chain is the
  vector \<^verbatim>\<open>filters\<close>.
\<close>

type_synonym 't Filter = "'t Log \<Rightarrow> bool"

text \<open>The body of \<^verbatim>\<open>Filterer::clear_filters\<close> is empty.\<close>

definition clear_filters :: "'t Filter list \<Rightarrow> 't Filter list" where
  "clear_filters filters = filters"

text \<open>
  \<^verbatim>\<open>Filterer::filter\<close>: the range-for loop with its early return. Beside the
  result, the model records the positions of the chain members whose \<^verbatim>\<open>filter\<close>
  method was called, in call order.
\<close>

fun filter_loop :: "'t Filter list \<Rightarrow> 't Log \<Rightarrow> nat \<Rightarrow> nat list \<Rightarrow> bool \<times> nat list" where
  "filter_loop [] log i called = (True, called)"
| "filter_loop (f # fs) log i called =
     (if \<not> f log then (False, called @ [i])
      else filter_loop fs log (Suc i) (called @ [i]))"

definition Filterer_filter :: "'t Filter list \<Rightarrow> 't Log \<Rightarrow> bool \<times> nat list" where
  "Filterer_filter filters log = filter_loop filters log 0 []"

section \<open>Weak references to sinks\<close>

text \<open>
  A \<^verbatim>\<open>std::weak_ptr<Sink>\<close> is either empty or names a control block; the
  managed sink of a control block may have been destroyed already. The state of the
  managed objects is the set of control blocks whose sink is still alive.
\<close>

type_synonym weak_ptr = "nat option"

type_synonym sink_heap = "nat \<Rightarrow> bool"

definition lock :: "sink_heap \<Rightarrow> weak_ptr \<Rightarrow> nat option" where
  "lock alive w = (case w of None \<Rightarrow> None | Some c \<Rightarrow> if alive c then Some c else None)"

text \<open>
  \<^verbatim>\<open>owner_before\<close> orders weak pointers by the address of their control block,
  the empty pointer (null control block) first.
\<close>

definition owner_rank :: "weak_ptr \<Rightarrow> nat" where
  "owner_rank w = (case w of None \<Rightarrow> 0 | Some c \<Rightarrow> Suc c)"

definition owner_before :: "weak_ptr \<Rightarrow> weak_ptr \<Rightarrow> bool" where
  "owner_before t u = (owner_rank t < owner_rank u)"

definition equals :: "weak_ptr \<Rightarrow> weak_ptr \<Rightarrow> bool" where
  "equals t u = (\<not> (owner_before t u \<or> owner_before u t))"

section \<open>Vector operations used by the logger\<close>

datatype error = Undefined_Behaviour | Null_Dereference | Out_Of_Range

text \<open>
  \<^verbatim>\<open>std::vector::erase(pos)\<close> with one iterator removes the single element at
  \<^verbatim>\<open>pos\<close>; the iterator must be dereferenceable, so \<^verbatim>\<open>erase(end())\<close> is
  undefined behaviour.
\<close>

definition vector_erase :: "nat \<Rightarrow> 'a list \<Rightarrow> error + 'a list" where
  "vector_erase pos v =
     (if pos < length v then Inr (take pos v @ drop (Suc pos) v)
      else Inl Undefined_Behaviour)"

text \<open>
  \<^verbatim>\<open>std::find_if\<close>: the position of the first element that satisfies the
  predicate, or the end position.
\<close>

fun find_if :: "('a \<Rightarrow> bool) \<Rightarrow> 'a list \<Rightarrow> nat" where
  "find_if P [] = 0"
| "find_if P (x # xs) = (if P x then 0 else Suc (find_if P xs))"

text \<open>
  \<^verbatim>\<open>std::remove_if\<close> as the standard libraries implement it: after the first
  match, every later element that is kept is move-assigned to the write position
  \<^verbatim>\<open>result\<close>; a moved-from weak pointer is empty. The vector keeps its length, and
  the function returns the new logical end together with the vector.
\<close>

function remove_loop ::
  "(weak_ptr \<Rightarrow> bool) \<Rightarrow> nat \<Rightarrow> nat \<Rightarrow> weak_ptr list \<Rightarrow> nat \<times> weak_ptr list" where
  "remove_loop P first result v =
     (if first < length v then
        (if \<not> P (v ! first)
         then remove_loop P (Suc first) (Suc result) ((v[result := v ! first])[first := None])
         else remove_loop P (Suc first) result v)
      else (result, v))"
  by pat_completeness auto
termination
  by (relation "measure (\<lambda>(P, first, result, v). length v - first)") auto

declare remove_loop.simps [simp del]

definition remove_if :: "(weak_ptr \<Rightarrow> bool) \<Rightarrow> weak_ptr list \<Rightarrow> nat \<times> weak_ptr list" where
  "remove_if P v =
     (let first = find_if P v
      in if first = length v then (first, v)
         else remove_loop P (Suc first) first v)"

section \<open>The logger tree\<close>

text \<open>
  A \<^verbatim>\<open>Logger\<close> holds its name, the propagate flag, the vector of weak sink
  references and the map of the children it owns. The \<^verbatim>\<open>parent\<close> pointer is the
  node's position in the tree. The map, whose type is declared in \<^verbatim>\<open>logger.hpp\<close>,
  is an association list that is looked up by key; a new child is entered at the end.
  The loops over the children visit every entry once, and no result depends on the
  order in which they do.
\<close>

datatype Logger =
  Logger (name: string) (propagate: bool) (sinks: "weak_ptr list")
    (children: "(string \<times> Logger) list")

text \<open>
  A \<^verbatim>\<open>Logger *\<close> into the tree below a node is the list of child keys that leads
  to the node it points to.
\<close>

type_synonym handle = "string list"

fun node_at :: "handle \<Rightarrow> Logger \<Rightarrow> Logger option" where
  "node_at [] n = Some n"
| "node_at (k # ks) n =
     (case map_of (children n) k of None \<Rightarrow> None | Some c \<Rightarrow> node_at ks c)"

text \<open>Running a member function on one child of a map, in place.\<close>

fun update_child ::
  "string \<Rightarrow> (Logger \<Rightarrow> Logger) \<Rightarrow> (string \<times> Logger) list \<Rightarrow> (string \<times> Logger) list" where
  "update_child k g [] = []"
| "update_child k g ((k', c) # cs) =
     (if k' = k then (k', g c) # cs else (k', c) # update_child k g cs)"

fun modify_at :: "handle \<Rightarrow> (Logger \<Rightarrow> Logger) \<Rightarrow> Logger \<Rightarrow> Logger" where
  "modify_at [] g n = g n"
| "modify_at (k # ks) g n =
     Logger (name n) (propagate n) (sinks n) (update_child k (modify_at ks g) (children n))"

subsection \<open>Publishing a record\<close>

text \<open>
  \<^verbatim>\<open>sink_ptr->handle(log)\<close> is a virtual call that either returns or throws, and
  \<^verbatim>\<open>Logger::publish_log\<close> has no handler. The argument \<open>hdl\<close> gives the outcome
  of each call: \<open>hdl hist c log\<close> is \<open>None\<close> when the sink with control block
  \<open>c\<close> returns from handling \<open>log\<close>, and the exception when it throws, where
  \<open>hist\<close> lists the calls of this broadcast that were made before. The sinks write
  to their backends and touch neither the tree nor the lifetime of a sink, so the set
  of live control blocks is the same throughout one call.
\<close>

type_synonym 't handler = "(nat \<times> 't Log) list \<Rightarrow> nat \<Rightarrow> 't Log \<Rightarrow> error option"

text \<open>
  \<^verbatim>\<open>Logger::publish_log\<close>: the iterator loop over \<^verbatim>\<open>sinks\<close>. The result is the
  vector as the call leaves it, the calls of \<^verbatim>\<open>handle\<close> that were made (the sink's
  control block and the record, in call order), and the exception that ended the loop,
  if any. A call that throws is recorded as made; the vector stays as it is at that
  moment.
\<close>

function publish_loop ::
  "sink_heap \<Rightarrow> 't handler \<Rightarrow> 't Log \<Rightarrow> nat \<Rightarrow> weak_ptr list \<Rightarrow> (nat \<times> 't Log) list
     \<Rightarrow> weak_ptr list \<times> (nat \<times> 't Log) list \<times> error option" where
  "publish_loop alive hdl log iter v handled =
     (if iter \<noteq> length v then
        (if iter < length v then
           (case lock alive (v ! iter) of
              Some sink_ptr \<Rightarrow>
                (case hdl handled sink_ptr log of
                   Some e \<Rightarrow> (v, handled @ [(sink_ptr, log)], Some e)
                 | None \<Rightarrow>
                     publish_loop alive hdl log (Suc iter) v (handled @ [(sink_ptr, log)]))
            | None \<Rightarrow>
                (case vector_erase iter v of
                   Inl e \<Rightarrow> (v, handled, Some e)
                 | Inr v' \<Rightarrow> publish_loop alive hdl log iter v' handled))
         else (v, handled, Some Undefined_Behaviour))
      else (v, handled, None))"
  by pat_completeness auto
termination
  by (relation "measure (\<lambda>(alive, hdl, log, iter, v, handled). length v - iter)")
     (auto simp: vector_erase_def split: if_splits)

declare publish_loop.simps [simp del]

definition publish_log ::
  "sink_heap \<Rightarrow> 't handler \<Rightarrow> 't Log \<Rightarrow> Logger
     \<Rightarrow> Logger \<times> (nat \<times> 't Log) list \<times> error option" where
  "publish_log alive hdl log n =
     (case publish_loop alive hdl log 0 (sinks n) [] of
        (v, handled, exc) \<Rightarrow> (Logger (name n) (propagate n) v (children n), handled, exc))"

text \<open>
  The five logging methods build the record from the node's name, the clock
  (\<^verbatim>\<open>time_now()\<close>, the argument \<open>now\<close>), their level and the message, and publish
  it.
\<close>

definition Logger_debug ::
  "sink_heap \<Rightarrow> 't handler \<Rightarrow> 't \<Rightarrow> string \<Rightarrow> Logger
     \<Rightarrow> Logger \<times> (nat \<times> 't Log) list \<times> error option" where
  "Logger_debug alive hdl now msg n =
     publish_log alive hdl \<lparr>source = name n, time = now, level = DEBUG, message = msg\<rparr> n"


definition Logger_warning ::
  "sink_heap \<Rightarrow> 't handler \<Rightarrow> 't \<Rightarrow> string \<Rightarrow> Logger
     \<Rightarrow> Logger \<times> (nat \<times> 't Log) list \<times> error option" where
  "Logger_warning alive hdl now msg n =
     publish_log alive hdl \<lparr>source = name n, time = now, level = WARNING, message = msg\<rparr> n"

definition Logger_error ::
  "sink_heap \<Rightarrow> 't handler \<Rightarrow> 't \<Rightarrow> string \<Rightarrow> Logger
     \<Rightarrow> Logger \<times> (nat \<times> 't Log) list \<times> error option" where
  "Logger_error alive hdl now msg n =
     publish_log alive hdl \<lparr>source = name n, time = now, level = ERROR, message = msg\<rparr> n"

definition Logger_critical ::
  "sink_heap \<Rightarrow> 't handler \<Rightarrow> 't \<Rightarrow> string \<Rightarrow> Logger
     \<Rightarrow> Logger \<times> (nat \<times> 't Log) list \<times> error option" where
  "Logger_critical alive hdl now msg n =
     publish_log alive hdl \<lparr>source = name n, time = now, level = CRITICAL, message = msg\<rparr> n"

text \<open>
  A call through a \<^verbatim>\<open>Logger *\<close> into the tree: the member function runs on the
  node the handle points to; a null or dangling handle is an error before the call.
\<close>

definition publish_at ::
  "sink_heap \<Rightarrow> 't handler \<Rightarrow> 't Log \<Rightarrow> handle \<Rightarrow> Logger
     \<Rightarrow> error + (Logger \<times> (nat \<times> 't Log) list \<times> error option)" where
  "publish_at alive hdl log h root =
     (case node_at h root of
        None \<Rightarrow> Inl Null_Dereference
      | Some n \<Rightarrow>
          (case publish_log alive hdl log n of
             (n', handled, exc) \<Rightarrow> Inr (modify_at h (\<lambda>_. n') root, handled, exc)))"

subsection \<open>Path resolution\<close>

text \<open>
  The string operations of \<^verbatim>\<open>Logger::get\<close>. Sizes are \<^verbatim>\<open>size_t\<close> values
  (64 bits); \<^verbatim>\<open>find\<close>, called with a string of one character, returns the
  position of its first occurrence, or \<^verbatim>\<open>npos\<close>, the largest size, when there is
  none. \<^verbatim>\<open>substr\<close> and \<^verbatim>\<open>erase\<close> throw \<^verbatim>\<open>std::out_of_range\<close> when
  the start position is beyond the end and clip the count to the rest of the string.
\<close>

definition npos :: "64 word" where
  "npos = - 1"

definition string_find :: "string \<Rightarrow> char \<Rightarrow> 64 word" where
  "string_find s c =
     (let i = find_if (\<lambda>x. x = c) s
      in if i = length s then npos else word_of_nat i)"

definition substr :: "string \<Rightarrow> nat \<Rightarrow> 64 word \<Rightarrow> error + string" where
  "substr s pos n =
     (if length s < pos then Inl Out_Of_Range else Inr (take (unat n) (drop pos s)))"

definition string_erase :: "string \<Rightarrow> nat \<Rightarrow> 64 word \<Rightarrow> error + string" where
  "string_erase s pos n =
     (if length s < pos then Inl Out_Of_Range
      else Inr (take pos s @ drop (pos + unat n) s))"

text \<open>
  Modelled from the spec: the default value of the constructor's \<^verbatim>\<open>propagate\<close>
  parameter, which is declared in \<^verbatim>\<open>logger.hpp\<close> (a child is created "with
  propagate = true-by-default").
\<close>

definition default_propagate :: bool where
  "default_propagate = True"

text \<open>
  \<^verbatim>\<open>Logger::ensure_child\<close>: a missing child is constructed with this node as
  parent, the name \<^verbatim>\<open>name + "/" + logger_name\<close>, no sinks and no children.
\<close>

definition ensure_child :: "string \<Rightarrow> Logger \<Rightarrow> Logger" where
  "ensure_child logger_name n =
     (if map_of (children n) logger_name = None then
        Logger (name n) (propagate n) (sinks n)
          (children n @
             [(logger_name, Logger (name n @ ''/'' @ logger_name) default_propagate [] [])])
      else n)"

text \<open>
  The tail of a path with a separator is strictly shorter than the path: the 32-bit
  \<^verbatim>\<open>delim_index\<close> is not \<^verbatim>\<open>-1\<close> there, so \<^verbatim>\<open>delim_index + 1\<close> is not
  zero and at least one character is erased from a string that is not empty.
\<close>

lemma scast_inj_32_64:
  assumes "(scast (a :: 32 word) :: 64 word) = scast b"
  shows "a = b"
proof -
  from assms have "sint (scast a :: 64 word) = sint (scast b :: 64 word)"
    by simp
  then have "sint a = sint b"
    by (simp add: sint_up_scast is_up)
  then show "a = b"
    by (rule signed_word_eqI)
qed

lemma scast_npos_iff: "((scast (d :: 32 word) :: 64 word) = npos) = (d = - 1)"
proof -
  have "(scast (- 1 :: 32 word) :: 64 word) = npos"
    by (simp add: npos_def)
  then show ?thesis
    using scast_inj_32_64 [of d "- 1"] by auto
qed

lemma scast_succ_nonzero:
  assumes "(d :: 32 word) \<noteq> - 1"
  shows "0 < unat (scast (d + 1) :: 64 word)"
proof -
  from assms have "d + 1 \<noteq> 0"
    by (metis add.commute add_eq_0_iff)
  then have "(scast (d + 1) :: 64 word) \<noteq> 0"
    using scast_inj_32_64 [of "d + 1" 0] by auto
  then show ?thesis
    by (simp add: unat_gt_0)
qed

lemma ucast_npos: "(ucast npos :: 32 word) = - 1"
  unfolding npos_def by (rule bit_word_eqI) (simp add: bit_simps)

lemma string_find_nonempty:
  "(ucast (string_find s c) :: 32 word) \<noteq> - 1 \<Longrightarrow> s \<noteq> []"
  by (auto simp: string_find_def ucast_npos)

lemma erase_tail_shorter:
  assumes "(scast (ucast (string_find s c) :: 32 word) :: 64 word) \<noteq> npos"
    and "string_erase s 0 (scast ((ucast (string_find s c) :: 32 word) + 1)) = Inr t"
  shows "length t < length s"
proof -
  from assms(1) have d: "(ucast (string_find s c) :: 32 word) \<noteq> - 1"
    by (simp add: scast_npos_iff)
  then have "s \<noteq> []"
    by (rule string_find_nonempty)
  moreover from d have "0 < unat (scast ((ucast (string_find s c) :: 32 word) + 1) :: 64 word)"
    by (rule scast_succ_nonzero)
  ultimately show ?thesis
    using assms(2) by (auto simp: string_erase_def)
qed

text \<open>
  \<^verbatim>\<open>Logger::get\<close>. \<^verbatim>\<open>delim_index\<close> is an \<^verbatim>\<open>int\<close>: the result of
  \<^verbatim>\<open>find\<close> is truncated to 32 bits, and sign-extended again wherever it is used as a
  size (\<^verbatim>\<open>substr\<close>, the comparison with \<^verbatim>\<open>npos\<close>, \<^verbatim>\<open>erase\<close>); the addition
  \<^verbatim>\<open>delim_index + 1\<close> is a 32-bit addition, taken with wrap-around. The result is
  the updated node and the returned pointer (\<open>None\<close> for \<^verbatim>\<open>nullptr\<close>), as a handle
  relative to the node.
\<close>

function get :: "string \<Rightarrow> Logger \<Rightarrow> error + (Logger \<times> handle option)" where
  "get logger_name n =
     (let delim_index = (ucast (string_find logger_name CHR ''/'') :: 32 word) in
      case substr logger_name 0 (scast delim_index) of
        Inl e \<Rightarrow> Inl e
      | Inr head \<Rightarrow>
          (let n1 = ensure_child head n in
           if (scast delim_index :: 64 word) = npos then
             (case map_of (children n1) head of
                Some c \<Rightarrow> Inr (n1, Some [head])
              | None \<Rightarrow> Inr (n1, None))
           else
             (case string_erase logger_name 0 (scast (delim_index + 1)) of
                Inl e \<Rightarrow> Inl e
              | Inr tail \<Rightarrow>
                  (case map_of (children n1) head of
                     Some c \<Rightarrow>
                       (case get tail c of
                          Inl e \<Rightarrow> Inl e
                        | Inr (c', r) \<Rightarrow>
                            Inr (Logger (name n1) (propagate n1) (sinks n1)
                                   (update_child head (\<lambda>_. c') (children n1)),
                                 map_option ((#) head) r))
                   | None \<Rightarrow> Inr (n1, None)))))"
  by pat_completeness auto
termination
  by (relation "measure (\<lambda>(logger_name, n). length logger_name)")
     (auto dest: erase_tail_shorter)

declare get.simps [simp del]

text \<open>\<^verbatim>\<open>logging::get\<close> resolves a path from the root logger.\<close>

definition logging_get :: "string \<Rightarrow> Logger \<Rightarrow> error + (Logger \<times> handle option)" where
  "logging_get logger_name root_logger = get logger_name root_logger"

subsection \<open>Attaching and detaching sinks\<close>

text \<open>\<^verbatim>\<open>Logger::attach_sink\<close>: push the reference, then recurse into every child.\<close>

fun attach_sink :: "weak_ptr \<Rightarrow> Logger \<Rightarrow> Logger"
  and attach_children :: "weak_ptr \<Rightarrow> (string \<times> Logger) list \<Rightarrow> (string \<times> Logger) list" where
  "attach_sink sink (Logger nm p ss cs) = Logger nm p (ss @ [sink]) (attach_children sink cs)"
| "attach_children sink [] = []"
| "attach_children sink ((child_name, child) # cs) =
     (child_name, attach_sink sink child) # attach_children sink cs"

text \<open>
  \<^verbatim>\<open>Logger::deattach_sink\<close>: the position that \<^verbatim>\<open>remove_if\<close> returns is handed
  to the one-iterator \<^verbatim>\<open>erase\<close>; then the same is done in every child, in turn.
\<close>

fun deattach_sink :: "weak_ptr \<Rightarrow> Logger \<Rightarrow> error + Logger"
  and deattach_children ::
    "weak_ptr \<Rightarrow> (string \<times> Logger) list \<Rightarrow> error + (string \<times> Logger) list" where
  "deattach_sink sink (Logger nm p ss cs) =
     (case remove_if (\<lambda>s. equals sink s) ss of
        (pos, v) \<Rightarrow>
          (case vector_erase pos v of
             Inl e \<Rightarrow> Inl e
           | Inr v' \<Rightarrow>
               (case deattach_children sink cs of
                  Inl e \<Rightarrow> Inl e
                | Inr cs' \<Rightarrow> Inr (Logger nm p v' cs'))))"
| "deattach_children sink [] = Inr []"
| "deattach_children sink ((child_name, child) # cs) =
     (case deattach_sink sink child of
        Inl e \<Rightarrow> Inl e
      | Inr child' \<Rightarrow>
          (case deattach_children sink cs of
             Inl e \<Rightarrow> Inl e
           | Inr cs' \<Rightarrow> Inr ((child_name, child') # cs')))"

section \<open>Sinks\<close>

text \<open>
  \<^verbatim>\<open>Sink::subscribe\<close> and \<^verbatim>\<open>Sink::unsubscribe\<close>. The sink's own weak reference
  (\<^verbatim>\<open>weak_from_this()\<close>) is the argument \<open>self\<close>; the logger is given by pointer or
  by path from the root logger.
\<close>

definition subscribe :: "weak_ptr \<Rightarrow> handle \<Rightarrow> Logger \<Rightarrow> error + Logger" where
  "subscribe self h root =
     (case node_at h root of
        None \<Rightarrow> Inl Null_Dereference
      | Some n \<Rightarrow> Inr (modify_at h (\<lambda>_. attach_sink self n) root))"

definition subscribe_path :: "weak_ptr \<Rightarrow> string \<Rightarrow> Logger \<Rightarrow> error + Logger" where
  "subscribe_path self logger root =
     (case logging_get logger root of
        Inl e \<Rightarrow> Inl e
      | Inr (root', None) \<Rightarrow> Inl Null_Dereference
      | Inr (root', Some h) \<Rightarrow> subscribe self h root')"

definition unsubscribe :: "weak_ptr \<Rightarrow> handle \<Rightarrow> Logger \<Rightarrow> error + Logger" where
  "unsubscribe self h root =
     (case node_at h root of
        None \<Rightarrow> Inl Null_Dereference
      | Some n \<Rightarrow>
          (case deattach_sink self n of
             Inl e \<Rightarrow> Inl e
           | Inr n' \<Rightarrow> Inr (modify_at h (\<lambda>_. n') root)))"

definition unsubscribe_path :: "weak_ptr \<Rightarrow> string \<Rightarrow> Logger \<Rightarrow> error + Logger" where
  "unsubscribe_path self logger root =
     (case logging_get logger root of
        Inl e \<Rightarrow> Inl e
      | Inr (root', None) \<Rightarrow> Inl Null_Dereference
      | Inr (root', Some h) \<Rightarrow> unsubscribe self h root')"

subsection \<open>The concrete sinks\<close>

text \<open>
  What a sink hands to its backend, in order: a \<^verbatim>\<open>double\<close> written in fixed
  notation with a field width and a precision, a string, \<^verbatim>\<open>std::endl\<close>, or a
  multipart message. A \<^verbatim>\<open>handle\<close> returns what it has handed over and the
  exception that ended it, if any.
\<close>

datatype 't backend_output = Fixed nat nat 't | Str string | Endl | Multipart "string list"

text \<open>\<^verbatim>\<open>PrintSink::handle\<close> asks the sink's own filter chain first.\<close>

definition PrintSink_handle ::
  "bool \<Rightarrow> 't Filter list \<Rightarrow> 't Log \<Rightarrow> 't backend_output list \<times> error option" where
  "PrintSink_handle with_color filters log =
     (if \<not> fst (Filterer_filter filters log) then ([], None)
      else
        (let written =
               [Fixed 9 5 (time log), Str '' '',
                Str ''['', Str (LogLevel_toStr (level log) with_color), Str ''] '',
                Str (message log), Str '' '',
                Str ''('']
         in case substr (source log) 1 npos of
              Inl e \<Rightarrow> (written, Some e)
            | Inr s \<Rightarrow> (written @ [Str s, Str '')'', Endl], None)))"

text \<open>
  \<^verbatim>\<open>FileSink::handle\<close>. The default of \<^verbatim>\<open>LogLevel_toStr\<close>'s second parameter
  is declared in \<^verbatim>\<open>logger.hpp\<close> and is the argument \<open>default_color\<close> here.
\<close>

definition FileSink_handle ::
  "bool \<Rightarrow> 't Filter list \<Rightarrow> 't Log \<Rightarrow> 't backend_output list \<times> error option" where
  "FileSink_handle default_color filters log =
     (let written =
            [Fixed 12 8 (time log), Str '' '',
             Str ''['', Str (LogLevel_toStr (level log) default_color), Str ''] '',
             Str (message log), Str '' '',
             Str ''('']
      in case substr (source log) 1 npos of
           Inl e \<Rightarrow> (written, Some e)
         | Inr s \<Rightarrow> (written @ [Str s, Str [CHR '')'', CHR 0x0A]], None))"

text \<open>
  \<^verbatim>\<open>ZMQPubSink::handle\<close> sends the topic and the serialised record as one
  two-part message. The serialisation (\<^verbatim>\<open>to_json\<close> and \<^verbatim>\<open>dump\<close>) is the
  argument \<open>dump\<close>.
\<close>

definition ZMQPubSink_handle ::
  "('t Log \<Rightarrow> string) \<Rightarrow> string \<Rightarrow> 't Filter list \<Rightarrow> 't Log
     \<Rightarrow> 't backend_output list \<times> error option" where
  "ZMQPubSink_handle dump topic filters log =
     (let log_str = dump log;
          msgs = [topic, log_str]
      in ([Multipart msgs], None))"

subsection \<open>The two halves of a path\<close>

text \<open>
  Names for the expressions that \<^verbatim>\<open>Logger::get\<close> computes from its argument: the
  32-bit \<^verbatim>\<open>delim_index\<close>, the \<^verbatim>\<open>head\<close>, and the \<^verbatim>\<open>tail\<close> when the
  function takes the branch with the recursive call.
\<close>

definition delim_index :: "string \<Rightarrow> 32 word" where
  "delim_index p = ucast (string_find p CHR ''/'')"

definition path_head :: "string \<Rightarrow> string" where
  "path_head p = take (unat (scast (delim_index p) :: 64 word)) p"

definition path_tail :: "string \<Rightarrow> string option" where
  "path_tail p =
     (if delim_index p = - 1 then None
      else Some (drop (unat (scast (delim_index p + 1) :: 64 word)) p))"

subsection \<open>The segments of a path\<close>




section \<open>Properties of the filter chain\<close>

lemma filter_loop_result:
  "fst (filter_loop fs log i called) = list_all (\<lambda>f. f log) fs"
  by (induction fs arbitrary: i called) auto

lemma filter_loop_called:
  "snd (filter_loop fs log i called) =
     called @ [i ..< i + min (length fs) (Suc (length (takeWhile (\<lambda>f. f log) fs)))]"
proof (induction fs arbitrary: i called)
  case Nil
  then show ?case by simp
next
  case (Cons f fs)
  show ?case
  proof (cases "f log")
    case True
    have "[i ..< i + Suc n] = i # [Suc i ..< Suc i + n]" for n
      by (simp add: upt_rec)
    with True Cons show ?thesis by simp
  next
    case False
    then show ?thesis by simp
  qed
qed

text \<open>
  Claim C6. \<^verbatim>\<open>Filterer::filter\<close> returns true exactly when every filter of the
  chain accepts the record. The filters that are called are those at the positions
  \<open>0, 1, ...\<close> up to and including the first one that rejects, in this order, so
  no filter behind a rejecting one is called. The empty chain accepts every record
  and calls nothing.
\<close>

theorem Filterer_filter_conjunction:
  "fst (Filterer_filter filters log) = list_all (\<lambda>f. f log) filters
   \<and> snd (Filterer_filter filters log) =
       [0 ..< min (length filters) (Suc (length (takeWhile (\<lambda>f. f log) filters)))]
   \<and> Filterer_filter [] log = (True, [])"
  by (simp add: Filterer_filter_def filter_loop_result filter_loop_called)

text \<open>
  Claim C10. \<^verbatim>\<open>Filterer::clear_filters\<close> leaves the chain as it is: the chain
  after the call is the chain before it, and \<^verbatim>\<open>filter\<close> gives the same result on
  every record.
\<close>

theorem clear_filters_unchanged:
  "clear_filters filters = filters
   \<and> Filterer_filter (clear_filters filters) log = Filterer_filter filters log"
  by (simp add: clear_filters_def)

section \<open>Properties of publishing\<close>

lemma lock_Some: "lock alive w = Some c \<longleftrightarrow> w = Some c \<and> alive c"
  by (auto simp: lock_def split: option.splits)

text \<open>
  The loop of \<^verbatim>\<open>publish_log\<close>, started at any position. The entries from the
  position on split into those the loop has passed over (\<open>pre\<close>) and those it has not
  reached (\<open>post\<close>): the entries before the position and those of \<open>post\<close> stay, an
  entry of \<open>pre\<close> stays when it locks and is erased when it does not, and
  \<^verbatim>\<open>handle\<close> is called on each entry of \<open>pre\<close> that locks, in order. A loop that
  ends without an exception has passed over every entry; a loop that ends with one has
  stopped behind the entry whose \<^verbatim>\<open>handle\<close> threw it.
\<close>

lemma publish_loop_inv:
  "iter \<le> length v \<Longrightarrow>
   \<exists>pre post exc. drop iter v = pre @ post
     \<and> publish_loop alive hdl log iter v handled =
         (take iter v @ filter (\<lambda>w. lock alive w \<noteq> None) pre @ post,
          handled @ map (\<lambda>c. (c, log)) (List.map_filter (lock alive) pre),
          exc)
     \<and> (exc = None \<longrightarrow> post = [])
     \<and> (\<forall>e. exc = Some e \<longrightarrow>
           (\<exists>c hist. pre \<noteq> [] \<and> last pre = Some c \<and> alive c \<and> hdl hist c log = Some e))"
proof (induction alive hdl log iter v handled rule: publish_loop.induct)
  case (1 alive hdl log iter v handled)
  show ?case
  proof (cases "iter = length v")
    case True
    then show ?thesis
      by (subst publish_loop.simps) simp
  next
    case False
    with "1.prems" have lt: "iter < length v" by simp
    then have dr: "drop iter v = v ! iter # drop (Suc iter) v"
      by (simp add: Cons_nth_drop_Suc)
    from lt have whole: "take iter v @ v ! iter # drop (Suc iter) v = v"
      by (simp add: id_take_nth_drop [symmetric])
    show ?thesis
    proof (cases "lock alive (v ! iter)")
      case (Some c)
      then have vc: "v ! iter = Some c" "alive c" by (simp_all add: lock_Some)
      show ?thesis
      proof (cases "hdl handled c log")
        case (Some e)
        have "publish_loop alive hdl log iter v handled = (v, handled @ [(c, log)], Some e)"
          using False lt \<open>lock alive (v ! iter) = Some c\<close> Some
          by (subst publish_loop.simps) simp
        moreover have "drop iter v = [v ! iter] @ drop (Suc iter) v"
          using dr by simp
        ultimately show ?thesis
          using vc whole Some \<open>lock alive (v ! iter) = Some c\<close>
          by (intro exI [of _ "[v ! iter]"] exI [of _ "drop (Suc iter) v"] exI [of _ "Some e"])
             auto
      next
        case None
        from lt have "Suc iter \<le> length v" by simp
        from "1.IH"(2) [OF False lt \<open>lock alive (v ! iter) = Some c\<close> None this]
        obtain pre post exc where ih:
          "drop (Suc iter) v = pre @ post"
          "publish_loop alive hdl log (Suc iter) v (handled @ [(c, log)]) =
             (take (Suc iter) v @ filter (\<lambda>w. lock alive w \<noteq> None) pre @ post,
              (handled @ [(c, log)]) @ map (\<lambda>c. (c, log)) (List.map_filter (lock alive) pre),
              exc)"
          "exc = None \<longrightarrow> post = []"
          "\<forall>e. exc = Some e \<longrightarrow>
             (\<exists>c hist. pre \<noteq> [] \<and> last pre = Some c \<and> alive c \<and> hdl hist c log = Some e)"
          by blast
        have step: "publish_loop alive hdl log iter v handled =
            publish_loop alive hdl log (Suc iter) v (handled @ [(c, log)])"
          using False lt \<open>lock alive (v ! iter) = Some c\<close> None
          by (subst publish_loop.simps) simp
        show ?thesis
          using ih step dr lt \<open>lock alive (v ! iter) = Some c\<close>
          by (intro exI [of _ "v ! iter # pre"] exI [of _ post] exI [of _ exc])
             (auto simp: take_Suc_conv_app_nth)
      qed
    next
      case None
      have er: "vector_erase iter v = Inr (take iter v @ drop (Suc iter) v)"
        using lt by (simp add: vector_erase_def)
      have le: "iter \<le> length (take iter v @ drop (Suc iter) v)"
        using lt by simp
      from "1.IH"(1) [OF False lt None er le]
      obtain pre post exc where ih:
        "drop iter (take iter v @ drop (Suc iter) v) = pre @ post"
        "publish_loop alive hdl log iter (take iter v @ drop (Suc iter) v) handled =
           (take iter (take iter v @ drop (Suc iter) v) @
              filter (\<lambda>w. lock alive w \<noteq> None) pre @ post,
            handled @ map (\<lambda>c. (c, log)) (List.map_filter (lock alive) pre),
            exc)"
        "exc = None \<longrightarrow> post = []"
        "\<forall>e. exc = Some e \<longrightarrow>
           (\<exists>c hist. pre \<noteq> [] \<and> last pre = Some c \<and> alive c \<and> hdl hist c log = Some e)"
        by blast
      have step: "publish_loop alive hdl log iter v handled =
          publish_loop alive hdl log iter (take iter v @ drop (Suc iter) v) handled"
        using False lt None er
        by (subst publish_loop.simps) simp
      from ih(1) lt have d: "drop (Suc iter) v = pre @ post"
        by (simp add: min_def)
      show ?thesis
        using ih(2-4) d step dr lt None
        by (intro exI [of _ "v ! iter # pre"] exI [of _ post] exI [of _ exc])
           (auto simp: min_def)
    qed
  qed
qed


lemma publish_log_inv:
  "\<exists>pre post exc. sinks n = pre @ post
     \<and> publish_log alive hdl log n =
         (Logger (name n) (propagate n) (filter (\<lambda>w. lock alive w \<noteq> None) pre @ post) (children n),
          map (\<lambda>c. (c, log)) (List.map_filter (lock alive) pre),
          exc)
     \<and> (exc = None \<longrightarrow> post = [])
     \<and> (\<forall>e. exc = Some e \<longrightarrow>
           (\<exists>c hist. pre \<noteq> [] \<and> last pre = Some c \<and> alive c \<and> hdl hist c log = Some e))"
proof -
  obtain pre post exc where inv:
    "drop 0 (sinks n) = pre @ post"
    "publish_loop alive hdl log 0 (sinks n) [] =
       (take 0 (sinks n) @ filter (\<lambda>w. lock alive w \<noteq> None) pre @ post,
        [] @ map (\<lambda>c. (c, log)) (List.map_filter (lock alive) pre),
        exc)"
    "exc = None \<longrightarrow> post = []"
    "\<forall>e. exc = Some e \<longrightarrow>
       (\<exists>c hist. pre \<noteq> [] \<and> last pre = Some c \<and> alive c \<and> hdl hist c log = Some e)"
    using publish_loop_inv [of 0 "sinks n" alive hdl log "[]"] by blast
  from inv(1,2) have "sinks n = pre @ post"
    "publish_log alive hdl log n =
       (Logger (name n) (propagate n) (filter (\<lambda>w. lock alive w \<noteq> None) pre @ post) (children n),
        map (\<lambda>c. (c, log)) (List.map_filter (lock alive) pre),
        exc)"
    by (simp_all add: publish_log_def)
  with inv(3,4) show ?thesis by blast
qed






section \<open>Handles into the tree\<close>

lemma map_of_update_child:
  "map_of (update_child k g cs) k' =
     (if k' = k then map_option g (map_of cs k) else map_of cs k')"
  by (induction k g cs rule: update_child.induct) auto

lemma update_child_const_idem:
  "update_child k (\<lambda>_. c) (update_child k (\<lambda>_. c) cs) = update_child k (\<lambda>_. c) cs"
  by (induction k "\<lambda>_ :: Logger. c" cs rule: update_child.induct) auto

lemma update_child_keys: "map fst (update_child k g cs) = map fst cs"
  by (induction k g cs rule: update_child.induct) auto

lemma update_child_agree:
  "map_of cs k = Some c \<Longrightarrow> g c = g' c \<Longrightarrow> update_child k g cs = update_child k g' cs"
  by (induction k g cs rule: update_child.induct) (auto split: if_splits)

lemma modify_at_const:
  "node_at h root = Some n \<Longrightarrow> modify_at h (\<lambda>_. g n) root = modify_at h g root"
proof (induction h arbitrary: root)
  case Nil
  then show ?case by simp
next
  case (Cons k ks)
  then obtain c where c: "map_of (children root) k = Some c" "node_at ks c = Some n"
    by (auto split: option.splits)
  from Cons.IH [OF c(2)] have "modify_at ks (\<lambda>_. g n) c = modify_at ks g c" .
  with c(1) have "update_child k (modify_at ks (\<lambda>_. g n)) (children root) =
      update_child k (modify_at ks g) (children root)"
    by (rule update_child_agree)
  then show ?case by simp
qed

lemma node_at_modify_same:
  "node_at h root = Some n \<Longrightarrow> node_at h (modify_at h g root) = Some (g n)"
proof (induction h arbitrary: root)
  case Nil
  then show ?case by simp
next
  case (Cons k ks)
  then show ?case
    by (auto simp: map_of_update_child split: option.splits)
qed

lemma node_at_modify_shape:
  assumes "\<And>m. name (g m) = name m" "\<And>m. propagate (g m) = propagate m"
    "\<And>m. children (g m) = children m"
  shows "map_option (\<lambda>m. (name m, propagate m, map fst (children m)))
           (node_at q (modify_at h g root)) =
         map_option (\<lambda>m. (name m, propagate m, map fst (children m))) (node_at q root)"
proof (induction q arbitrary: h root)
  case Nil
  then show ?case
    by (cases h) (simp_all add: assms update_child_keys)
next
  case (Cons k ks)
  show ?case
  proof (cases h)
    case Nil
    then show ?thesis by (simp add: assms)
  next
    case (Cons k' h')
    show ?thesis
    proof (cases "map_of (children root) k")
      case None
      with Cons show ?thesis by (auto simp: map_of_update_child)
    next
      case (Some c)
      with Cons Cons.IH [of h' c] show ?thesis
        by (auto simp: map_of_update_child)
    qed
  qed
qed

lemma node_at_modify_sinks:
  assumes "\<And>m. children (g m) = children m"
  shows "map_option sinks (node_at q (modify_at h g root)) =
         (if q = h then map_option (\<lambda>m. sinks (g m)) (node_at q root)
          else map_option sinks (node_at q root))"
proof (induction q arbitrary: h root)
  case Nil
  then show ?case
    by (cases h) simp_all
next
  case (Cons k ks)
  show ?case
  proof (cases h)
    case Nil
    then show ?thesis by (simp add: assms)
  next
    case (Cons k' h')
    show ?thesis
    proof (cases "map_of (children root) k")
      case None
      with Cons show ?thesis by (auto simp: map_of_update_child)
    next
      case (Some c)
      with Cons Cons.IH [of h' c] show ?thesis
        by (auto simp: map_of_update_child)
    qed
  qed
qed

text \<open>
  Claim C7. A call of \<^verbatim>\<open>publish_log\<close> through a handle into the tree, whether it
  returns or ends with the exception of a \<^verbatim>\<open>handle\<close>: the calls of \<^verbatim>\<open>handle\<close>
  are those for the entries that lock among the first entries (\<open>pre\<close>) of the addressed
  node's own \<^verbatim>\<open>sinks\<close>, all of them when there is no exception; they, the exception
  and the vector afterwards are the same whatever the node's name, propagate flag and
  children are. At every handle \<open>q\<close> the tree has a node afterwards exactly when it had
  one before, with the same name, the same propagate flag and the same child keys; the
  \<^verbatim>\<open>sinks\<close> vector is the old one everywhere but at the addressed node, where the
  entries of \<open>pre\<close> that do not lock are gone and nothing else has changed.
\<close>

theorem publish_at_frame:
  assumes "node_at h root = Some n"
  shows "\<exists>root' pre post exc.
      sinks n = pre @ post
    \<and> publish_at alive hdl log h root =
        Inr (root', map (\<lambda>c. (c, log)) (List.map_filter (lock alive) pre), exc)
    \<and> (exc = None \<longrightarrow> post = [])
    \<and> (\<forall>q. map_option name (node_at q root') = map_option name (node_at q root)
           \<and> map_option propagate (node_at q root') = map_option propagate (node_at q root)
           \<and> map_option (\<lambda>m. map fst (children m)) (node_at q root') =
               map_option (\<lambda>m. map fst (children m)) (node_at q root)
           \<and> map_option sinks (node_at q root') =
               (if q = h then Some (filter (\<lambda>w. lock alive w \<noteq> None) pre @ post)
                else map_option sinks (node_at q root)))
    \<and> (\<forall>nm pr cs.
          publish_log alive hdl log (Logger nm pr (sinks n) cs) =
            (Logger nm pr (filter (\<lambda>w. lock alive w \<noteq> None) pre @ post) cs,
             map (\<lambda>c. (c, log)) (List.map_filter (lock alive) pre), exc))"
proof -
  obtain pre post exc where inv:
    "sinks n = pre @ post"
    "publish_log alive hdl log n =
       (Logger (name n) (propagate n) (filter (\<lambda>w. lock alive w \<noteq> None) pre @ post) (children n),
        map (\<lambda>c. (c, log)) (List.map_filter (lock alive) pre),
        exc)"
    "exc = None \<longrightarrow> post = []"
    using publish_log_inv [of n alive hdl log] by blast
  let ?v = "filter (\<lambda>w. lock alive w \<noteq> None) pre @ post"
  let ?g = "\<lambda>m. Logger (name m) (propagate m) ?v (children m)"
  let ?root' = "modify_at h ?g root"
  have pub: "publish_at alive hdl log h root =
      Inr (?root', map (\<lambda>c. (c, log)) (List.map_filter (lock alive) pre), exc)"
    using assms inv(2) modify_at_const [OF assms, of ?g]
    by (simp add: publish_at_def)
  have shape: "map_option (\<lambda>m. (name m, propagate m, map fst (children m))) (node_at q ?root') =
      map_option (\<lambda>m. (name m, propagate m, map fst (children m))) (node_at q root)" for q
    by (rule node_at_modify_shape) simp_all
  have snk: "map_option sinks (node_at q ?root') =
      (if q = h then Some ?v else map_option sinks (node_at q root))" for q
    using node_at_modify_sinks [of ?g q h root] assms by simp
  have fields: "map_option name (node_at q ?root') = map_option name (node_at q root)
      \<and> map_option propagate (node_at q ?root') = map_option propagate (node_at q root)
      \<and> map_option (\<lambda>m. map fst (children m)) (node_at q ?root') =
          map_option (\<lambda>m. map fst (children m)) (node_at q root)" for q
    using shape [of q] by (cases "node_at q ?root'"; cases "node_at q root") simp_all
  from inv(2) have loop: "publish_loop alive hdl log 0 (sinks n) [] =
      (?v, map (\<lambda>c. (c, log)) (List.map_filter (lock alive) pre), exc)"
    by (auto simp: publish_log_def split: prod.splits)
  have same: "publish_log alive hdl log (Logger nm pr (sinks n) cs) =
      (Logger nm pr ?v cs, map (\<lambda>c. (c, log)) (List.map_filter (lock alive) pre), exc)"
    for nm pr cs
    using loop by (simp add: publish_log_def)
  from inv(1,3) pub snk fields same show ?thesis
    by blast
qed

text \<open>
  The frame property on a tree with a root and one child that holds a dead sink, a live
  sink whose \<^verbatim>\<open>handle\<close> throws, a second dead sink and a second live sink:
  publishing at the child calls the first live sink, prunes the dead sink before it and
  ends with the exception; the root and the rest of the child's vector are as before.
\<close>

theorem publish_at_frame_witness:
  "node_at [''a'']
     (Logger [] True [Some 0] [(''a'', Logger ''/a'' False [Some 1, Some 2, Some 3, Some 4] [])]) =
     Some (Logger ''/a'' False [Some 1, Some 2, Some 3, Some 4] [])
   \<and> (\<exists>root'.
        publish_at (\<lambda>c. c = 2 \<or> c = 4)
          (\<lambda>hist c l. if c = 2 then Some Out_Of_Range else None)
          \<lparr>source = ''/a'', time = 0 :: nat, level = INFO, message = ''m''\<rparr>
          [''a'']
          (Logger [] True [Some 0] [(''a'', Logger ''/a'' False [Some 1, Some 2, Some 3, Some 4] [])]) =
          Inr (root',
               [(2, \<lparr>source = ''/a'', time = 0 :: nat, level = INFO, message = ''m''\<rparr>)],
               Some Out_Of_Range)
      \<and> map_option sinks (node_at [] root') = Some [Some 0]
      \<and> map_option sinks (node_at [''a''] root') = Some [Some 2, Some 3, Some 4]
      \<and> map_option propagate (node_at [''a''] root') = Some False)"
proof -
  let ?N = "Logger ''/a'' False [Some 1, Some 2, Some 3, Some 4] []"
  let ?R = "Logger [] True [Some 0] [(''a'', ?N)]"
  let ?L = "\<lparr>source = ''/a'', time = 0 :: nat, level = INFO, message = ''m''\<rparr>"
  let ?A = "\<lambda>c :: nat. c = 2 \<or> c = 4"
  let ?H = "\<lambda>(hist :: (nat \<times> nat Log) list) (c :: nat) (l :: nat Log).
              if c = 2 then Some Out_Of_Range else None"
  have h: "node_at [''a''] ?R = Some ?N"
    by simp
  have ev: "publish_at ?A ?H ?L [''a''] ?R =
      Inr (Logger [] True [Some 0] [(''a'', Logger ''/a'' False [Some 2, Some 3, Some 4] [])],
           [(2, ?L)], Some Out_Of_Range)"
    by (simp add: publish_at_def publish_log_def publish_loop.simps lock_def vector_erase_def)
  from publish_at_frame [OF h, of ?A ?H ?L] obtain root' pre post exc where
    p: "publish_at ?A ?H ?L [''a''] ?R =
          Inr (root', map (\<lambda>c. (c, ?L)) (List.map_filter (lock ?A) pre), exc)"
    and q: "\<And>q. map_option sinks (node_at q root') =
          (if q = [''a''] then Some (filter (\<lambda>w. lock ?A w \<noteq> None) pre @ post)
           else map_option sinks (node_at q ?R))"
    and r: "\<And>q. map_option propagate (node_at q root') = map_option propagate (node_at q ?R)"
    by blast
  from p ev have root': "root' =
      Logger [] True [Some 0] [(''a'', Logger ''/a'' False [Some 2, Some 3, Some 4] [])]"
    by simp
  from q [of "[]"] have q0: "map_option sinks (node_at [] root') = Some [Some 0]"
    by simp
  from r [of "[''a'']"] have r1: "map_option propagate (node_at [''a''] root') = Some False"
    by simp
  from root' have q1: "map_option sinks (node_at [''a''] root') = Some [Some 2, Some 3, Some 4]"
    by simp
  from ev root' have "publish_at ?A ?H ?L [''a''] ?R = Inr (root', [(2, ?L)], Some Out_Of_Range)"
    by simp
  with h q0 q1 r1 show ?thesis
    by blast
qed

section \<open>Properties of path resolution\<close>

lemma path_tail_shorter: "path_tail p = Some t \<Longrightarrow> length t < length p"
proof -
  assume a: "path_tail p = Some t"
  then have d: "delim_index p \<noteq> - 1"
    by (auto simp: path_tail_def split: if_splits)
  then have "p \<noteq> []"
    unfolding delim_index_def by (rule string_find_nonempty)
  moreover from d have "0 < unat (scast (delim_index p + 1) :: 64 word)"
    by (rule scast_succ_nonzero)
  ultimately show ?thesis
    using a d by (auto simp: path_tail_def)
qed

lemma ensure_child_lookup: "\<exists>c. map_of (children (ensure_child k n)) k = Some c"
  by (simp add: ensure_child_def map_add_def)

lemma ensure_child_present:
  "map_of (children n) k = Some c \<Longrightarrow> ensure_child k n = n"
  by (simp add: ensure_child_def)

lemma get_leaf:
  "path_tail p = None \<Longrightarrow> get p n = Inr (ensure_child (path_head p) n, Some [path_head p])"
  using ensure_child_lookup [of "path_head p" n]
  by (subst get.simps)
     (auto simp: path_tail_def path_head_def delim_index_def substr_def scast_npos_iff Let_def
           split: if_splits)

lemma get_step:
  "path_tail p = Some t \<Longrightarrow>
   map_of (children (ensure_child (path_head p) n)) (path_head p) = Some c \<Longrightarrow>
   get p n =
     (case get t c of
        Inl e \<Rightarrow> Inl e
      | Inr (c', r) \<Rightarrow>
          Inr (Logger (name (ensure_child (path_head p) n))
                 (propagate (ensure_child (path_head p) n))
                 (sinks (ensure_child (path_head p) n))
                 (update_child (path_head p) (\<lambda>_. c') (children (ensure_child (path_head p) n))),
               map_option ((#) (path_head p)) r))"
  unfolding path_tail_def path_head_def delim_index_def
  by (subst get.simps)
     (auto simp: substr_def string_erase_def scast_npos_iff Let_def split: if_splits)

text \<open>
  The empty path, and the paths \<^verbatim>\<open>app\<close> and \<^verbatim>\<open>app/net\<close> from the root
  logger.
\<close>

lemma path_tail_empty: "path_tail [] = None"
  by (simp add: path_tail_def delim_index_def string_find_def ucast_npos)

lemma path_head_empty: "path_head [] = []"
  by (simp add: path_head_def)

lemma get_empty_path:
  "get [] (Logger [] True [] []) = Inr (Logger [] True [] [([], Logger ''/'' True [] [])], Some [[]])"
  by (simp add: get_leaf path_tail_empty path_head_empty ensure_child_def default_propagate_def)

lemma path_app: "path_tail ''app'' = None" "path_head ''app'' = ''app''"
  by (simp_all add: path_tail_def path_head_def delim_index_def string_find_def ucast_npos
      unsigned_minus_1_eq_mask mask_eq_exp_minus_1)

lemma path_net: "path_tail ''net'' = None" "path_head ''net'' = ''net''"
  by (simp_all add: path_tail_def path_head_def delim_index_def string_find_def ucast_npos
      unsigned_minus_1_eq_mask mask_eq_exp_minus_1)

lemma path_app_net: "path_tail ''app/net'' = Some ''net''" "path_head ''app/net'' = ''app''"
  by (simp_all add: path_tail_def path_head_def delim_index_def string_find_def)

lemma get_app_fresh:
  "get ''app'' (Logger [] True [] []) =
     Inr (Logger [] True [] [(''app'', Logger ''/app'' True [] [])], Some [''app''])"
  by (simp add: get_leaf path_app ensure_child_def default_propagate_def)

lemma get_app_present:
  "get ''app'' (Logger [] True [] [(''app'', c)]) =
     Inr (Logger [] True [] [(''app'', c)], Some [''app''])"
  by (simp add: get_leaf path_app ensure_child_def)

lemma get_app_net:
  "get ''app/net'' (Logger [] True [] [(''app'', Logger ''/app'' True ss [])]) =
     Inr (Logger [] True [] [(''app'', Logger ''/app'' True ss [(''net'', Logger ''/app/net'' True [] [])])],
          Some [''app'', ''net''])"
  by (simp add: get_step [where t = "''net''" and c = "Logger ''/app'' True ss []"]
      get_leaf path_app_net path_net ensure_child_def default_propagate_def)

lemma get_total_aux:
  "\<exists>n' h. get p n = Inr (n', Some h) \<and> h \<noteq> [] \<and> node_at h n' \<noteq> None"
proof (induction p arbitrary: n rule: measure_induct_rule [where f = length])
  case (less p)
  obtain c where c: "map_of (children (ensure_child (path_head p) n)) (path_head p) = Some c"
    using ensure_child_lookup by blast
  show ?case
  proof (cases "path_tail p")
    case None
    with c show ?thesis by (simp add: get_leaf)
  next
    case (Some t)
    then have "length t < length p" by (rule path_tail_shorter)
    from less.IH [OF this, of c] obtain c' r where
      r: "get t c = Inr (c', Some r)" "r \<noteq> []" "node_at r c' \<noteq> None" by blast
    with Some c show ?thesis
      by (simp add: get_step map_of_update_child)
  qed
qed

lemma get_idem_aux:
  "get p n = Inr (n', r) \<Longrightarrow> get p n' = Inr (n', r)"
proof (induction p arbitrary: n n' r rule: measure_induct_rule [where f = length])
  case (less p)
  obtain c where c: "map_of (children (ensure_child (path_head p) n)) (path_head p) = Some c"
    using ensure_child_lookup by blast
  show ?case
  proof (cases "path_tail p")
    case None
    with less.prems have n': "n' = ensure_child (path_head p) n" "r = Some [path_head p]"
      by (simp_all add: get_leaf)
    with c have "ensure_child (path_head p) n' = n'"
      by (simp add: ensure_child_present)
    with None n' show ?thesis by (simp add: get_leaf)
  next
    case (Some t)
    then have lt: "length t < length p" by (rule path_tail_shorter)
    obtain c' r' where r': "get t c = Inr (c', r')"
      using get_total_aux [of t c] by blast
    from less.IH [OF lt r'] have idem: "get t c' = Inr (c', r')" .
    let ?n1 = "ensure_child (path_head p) n"
    from less.prems Some c r' have n':
      "n' = Logger (name ?n1) (propagate ?n1) (sinks ?n1)
              (update_child (path_head p) (\<lambda>_. c') (children ?n1))"
      "r = map_option ((#) (path_head p)) r'"
      by (simp_all add: get_step)
    from c n' have look: "map_of (children n') (path_head p) = Some c'"
      by (simp add: map_of_update_child)
    then have same: "ensure_child (path_head p) n' = n'"
      by (rule ensure_child_present)
    from look same have "map_of (children (ensure_child (path_head p) n')) (path_head p) = Some c'"
      by simp
    from get_step [OF Some this] idem same n' show ?thesis
      by (simp add: update_child_const_idem)
  qed
qed

text \<open>
  Claim C2. For every path and every starting node, \<^verbatim>\<open>get\<close> returns a handle, and a
  second call with the same path on the tree that the first call left returns the same
  handle and leaves that tree as it is: the second call creates no node.
\<close>

theorem get_idempotent:
  "\<exists>n' h. get p n = Inr (n', Some h) \<and> get p n' = Inr (n', Some h)"
proof -
  obtain n' h where g: "get p n = Inr (n', Some h)"
    using get_total_aux [of p n] by blast
  then have "get p n' = Inr (n', Some h)"
    by (rule get_idem_aux)
  with g show ?thesis by blast
qed





























section \<open>Properties of attaching a sink\<close>

lemma attach_sink_fields:
  "name (attach_sink s n) = name n"
  "propagate (attach_sink s n) = propagate n"
  "sinks (attach_sink s n) = sinks n @ [s]"
  "children (attach_sink s n) = attach_children s (children n)"
  by (cases n; simp)+

lemma map_of_attach_children:
  "map_of (attach_children s cs) k = map_option (attach_sink s) (map_of cs k)"
  by (induction cs) auto

lemma node_at_attach_sink:
  "node_at q (attach_sink s n) = map_option (attach_sink s) (node_at q n)"
proof (induction q arbitrary: n)
  case Nil
  then show ?case by simp
next
  case (Cons k ks)
  then show ?case
    by (cases "map_of (children n) k") (simp_all add: attach_sink_fields map_of_attach_children)
qed

lemma get_fresh_sinks:
  "get p n = Inr (n', Some h) \<Longrightarrow> node_at h n = None \<Longrightarrow>
   \<exists>m. node_at h n' = Some m \<and> sinks m = [] \<and> children m = []"
proof (induction p arbitrary: n n' h rule: measure_induct_rule [where f = length])
  case (less p)
  let ?k = "path_head p"
  let ?n1 = "ensure_child ?k n"
  obtain c where c: "map_of (children ?n1) ?k = Some c"
    using ensure_child_lookup by blast
  show ?case
  proof (cases "path_tail p")
    case None
    with less.prems have n': "n' = ?n1" "h = [?k]"
      by (simp_all add: get_leaf)
    with less.prems(2) have "map_of (children n) ?k = None"
      by (simp split: option.splits)
    with n' show ?thesis
      by (simp add: ensure_child_def map_add_def)
  next
    case (Some t)
    then have lt: "length t < length p" by (rule path_tail_shorter)
    obtain c' r where r: "get t c = Inr (c', Some r)" "r \<noteq> []"
      using get_total_aux [of t c] by blast
    from less.prems(1) Some c r have n':
      "n' = Logger (name ?n1) (propagate ?n1) (sinks ?n1) (update_child ?k (\<lambda>_. c') (children ?n1))"
      "h = ?k # r"
      by (simp_all add: get_step)
    have "node_at r c = None"
    proof (cases "map_of (children n) ?k")
      case None
      with c have "c = Logger (name n @ ''/'' @ ?k) default_propagate [] []"
        by (simp add: ensure_child_def map_add_def)
      with r(2) show ?thesis by (cases r) simp_all
    next
      case (Some c0)
      with c have "c = c0" by (simp add: ensure_child_def)
      with Some less.prems(2) n'(2) show ?thesis by simp
    qed
    from less.IH [OF lt r(1) this] obtain m where "node_at r c' = Some m" "sinks m = []" "children m = []"
      by blast
    with n' c show ?thesis
      by (simp add: map_of_update_child)
  qed
qed

text \<open>
  Claim C3. \<^verbatim>\<open>attach_sink\<close> on a node \<open>X\<close> appends the reference once to the
  \<^verbatim>\<open>sinks\<close> vector of \<open>X\<close> and of every descendant that \<open>X\<close> has at the time of
  the call, and leaves every propagate flag as it is, whatever its value. A node that a
  later \<^verbatim>\<open>get\<close> creates below \<open>X\<close> has an empty \<^verbatim>\<open>sinks\<close> vector.
  \<^verbatim>\<open>Sink::subscribe\<close> on a pointer to \<open>X\<close> runs \<^verbatim>\<open>attach_sink\<close> on \<open>X\<close>.
\<close>

theorem attach_sink_snapshot:
  "(\<forall>q. map_option sinks (node_at q (attach_sink s X)) =
          map_option (\<lambda>m. sinks m @ [s]) (node_at q X)
       \<and> map_option propagate (node_at q (attach_sink s X)) =
          map_option propagate (node_at q X))
   \<and> (\<forall>p X' h. get p (attach_sink s X) = Inr (X', Some h)
          \<and> node_at h (attach_sink s X) = None
        \<longrightarrow> map_option sinks (node_at h X') = Some [])
   \<and> (\<forall>h root. node_at h root = Some X
        \<longrightarrow> (\<exists>root'. subscribe s h root = Inr root'
               \<and> node_at h root' = Some (attach_sink s X)))"
proof (intro conjI allI impI)
  fix q
  show "map_option sinks (node_at q (attach_sink s X)) =
      map_option (\<lambda>m. sinks m @ [s]) (node_at q X)"
    by (cases "node_at q X") (simp_all add: node_at_attach_sink attach_sink_fields)
  show "map_option propagate (node_at q (attach_sink s X)) =
      map_option propagate (node_at q X)"
    by (cases "node_at q X") (simp_all add: node_at_attach_sink attach_sink_fields)
next
  fix p X' h
  assume "get p (attach_sink s X) = Inr (X', Some h) \<and> node_at h (attach_sink s X) = None"
  then obtain m where "node_at h X' = Some m" "sinks m = []"
    using get_fresh_sinks by blast
  then show "map_option sinks (node_at h X') = Some []" by simp
next
  fix h root
  assume "node_at h root = Some X"
  then show "\<exists>root'. subscribe s h root = Inr root' \<and> node_at h root' = Some (attach_sink s X)"
    by (simp add: subscribe_def node_at_modify_same)
qed

text \<open>
  The snapshot on a node \<^verbatim>\<open>/x\<close> with the propagate flag off and one child
  \<^verbatim>\<open>/x/a\<close>: the child receives the sink, the child \<^verbatim>\<open>/x/b\<close> that is created
  afterwards does not.
\<close>

lemma path_tail_b: "path_tail ''b'' = None"
  by (simp add: path_tail_def delim_index_def string_find_def ucast_npos)

lemma path_head_b: "path_head ''b'' = ''b''"
  by (simp add: path_head_def delim_index_def string_find_def ucast_npos
      unsigned_minus_1_eq_mask mask_eq_exp_minus_1)

theorem attach_sink_snapshot_witness:
  "get ''b'' (attach_sink (Some 1) (Logger ''/x'' False [] [(''a'', Logger ''/x/a'' True [Some 5] [])])) =
     Inr (Logger ''/x'' False [Some 1]
            [(''a'', Logger ''/x/a'' True [Some 5, Some 1] []),
             (''b'', Logger ''/x/b'' True [] [])],
          Some [''b''])
   \<and> node_at [''b''] (attach_sink (Some 1) (Logger ''/x'' False [] [(''a'', Logger ''/x/a'' True [Some 5] [])])) = None
   \<and> map_option sinks (node_at [''b'']
        (Logger ''/x'' False [Some 1]
            [(''a'', Logger ''/x/a'' True [Some 5, Some 1] []),
             (''b'', Logger ''/x/b'' True [] [])])) = Some []
   \<and> map_option sinks (node_at [''a'']
        (attach_sink (Some 1) (Logger ''/x'' False [] [(''a'', Logger ''/x/a'' True [Some 5] [])]))) =
       Some [Some 5, Some 1]
   \<and> node_at [''x''] (Logger [] True [] [(''x'', Logger ''/x'' False [] [(''a'', Logger ''/x/a'' True [Some 5] [])])]) =
       Some (Logger ''/x'' False [] [(''a'', Logger ''/x/a'' True [Some 5] [])])
   \<and> (\<exists>root'. subscribe (Some 1) [''x'']
          (Logger [] True [] [(''x'', Logger ''/x'' False [] [(''a'', Logger ''/x/a'' True [Some 5] [])])]) = Inr root'
        \<and> node_at [''x''] root' =
            Some (attach_sink (Some 1) (Logger ''/x'' False [] [(''a'', Logger ''/x/a'' True [Some 5] [])])))"
proof -
  let ?X = "Logger ''/x'' False [] [(''a'', Logger ''/x/a'' True [Some 5] [])]"
  let ?X' = "Logger ''/x'' False [Some 1]
            [(''a'', Logger ''/x/a'' True [Some 5, Some 1] []),
             (''b'', Logger ''/x/b'' True [] [])]"
  let ?R = "Logger [] True [] [(''x'', ?X)]"
  note inst = attach_sink_snapshot [of "Some 1" ?X]
  have g: "get ''b'' (attach_sink (Some 1) ?X) = Inr (?X', Some [''b''])"
    by (simp add: get_leaf path_tail_b path_head_b ensure_child_def default_propagate_def)
  have f: "node_at [''b''] (attach_sink (Some 1) ?X) = None"
    by simp
  from inst g f have c: "map_option sinks (node_at [''b''] ?X') = Some []"
    by blast
  from inst have a: "map_option sinks (node_at [''a''] (attach_sink (Some 1) ?X)) =
      map_option (\<lambda>m. sinks m @ [Some 1]) (node_at [''a''] ?X)"
    by blast
  have r: "node_at [''x''] ?R = Some ?X"
    by simp
  with inst have s: "\<exists>root'. subscribe (Some 1) [''x''] ?R = Inr root'
      \<and> node_at [''x''] root' = Some (attach_sink (Some 1) ?X)"
    by blast
  from g f c a r s show ?thesis
    by simp
qed

section \<open>Properties of detaching a sink\<close>

lemma equals_iff: "equals t u \<longleftrightarrow> t = u"
  by (auto simp: equals_def owner_before_def owner_rank_def split: option.splits)

lemma find_if_le: "find_if P v \<le> length v"
  by (induction v) auto

lemma find_if_none: "find_if P v = length v \<longleftrightarrow> list_all (\<lambda>x. \<not> P x) v"
  using find_if_le [of P] by (induction v) (auto simp: Suc_le_eq)

lemma find_if_hit: "find_if P v < length v \<Longrightarrow> P (v ! find_if P v)"
  by (induction v) (auto split: if_splits)

lemma find_if_prefix: "filter (\<lambda>x. \<not> P x) (take (find_if P v) v) = take (find_if P v) v"
  by (induction v) auto

lemma remove_loop_inv:
  "result < first \<Longrightarrow> first \<le> length v \<Longrightarrow>
   \<exists>v'. remove_loop P first result v =
          (result + length (filter (\<lambda>x. \<not> P x) (drop first v)), v')
      \<and> length v' = length v
      \<and> take (result + length (filter (\<lambda>x. \<not> P x) (drop first v))) v' =
          take result v @ filter (\<lambda>x. \<not> P x) (drop first v)"
proof (induction P first result v rule: remove_loop.induct)
  case (1 P first result v)
  show ?case
  proof (cases "first < length v")
    case False
    with "1.prems" show ?thesis
      by (subst remove_loop.simps) simp
  next
    case True
    then have dr: "drop first v = v ! first # drop (Suc first) v"
      by (simp add: Cons_nth_drop_Suc)
    show ?thesis
    proof (cases "P (v ! first)")
      case True
      from "1.IH"(2) [OF \<open>first < length v\<close>] True "1.prems" \<open>first < length v\<close>
      show ?thesis
        by (subst remove_loop.simps) (simp add: dr)
    next
      case False
      let ?v1 = "(v[result := v ! first])[first := None]"
      have a: "take (Suc result) ?v1 = take result v @ [v ! first]"
        using "1.prems" \<open>first < length v\<close>
        by (simp add: take_Suc_conv_app_nth)
      have b: "drop (Suc first) ?v1 = drop (Suc first) v"
        using "1.prems" by simp
      from "1.IH"(1) [OF \<open>first < length v\<close> False] "1.prems" \<open>first < length v\<close>
      have "\<exists>v'. remove_loop P (Suc first) (Suc result) ?v1 =
                (Suc result + length (filter (\<lambda>x. \<not> P x) (drop (Suc first) ?v1)), v')
          \<and> length v' = length ?v1
          \<and> take (Suc result + length (filter (\<lambda>x. \<not> P x) (drop (Suc first) ?v1))) v' =
             take (Suc result) ?v1 @ filter (\<lambda>x. \<not> P x) (drop (Suc first) ?v1)"
        by simp
      with False \<open>first < length v\<close> show ?thesis
        by (subst remove_loop.simps) (simp add: a b dr)
    qed
  qed
qed

lemma remove_if_spec:
  "\<exists>v'. remove_if P v = (length (filter (\<lambda>x. \<not> P x) v), v')
      \<and> length v' = length v
      \<and> take (length (filter (\<lambda>x. \<not> P x) v)) v' = filter (\<lambda>x. \<not> P x) v"
proof (cases "find_if P v = length v")
  case True
  then have "list_all (\<lambda>x. \<not> P x) v" by (simp add: find_if_none)
  then have "filter (\<lambda>x. \<not> P x) v = v"
    by (simp add: list_all_iff)
  with True show ?thesis by (simp add: remove_if_def)
next
  case False
  let ?i = "find_if P v"
  from False find_if_le [of P v] have lt: "?i < length v" by simp
  then have hit: "P (v ! ?i)" by (rule find_if_hit)
  have split: "v = take ?i v @ v ! ?i # drop (Suc ?i) v"
    using lt by (simp add: id_take_nth_drop [symmetric])
  have "filter (\<lambda>x. \<not> P x) v =
      filter (\<lambda>x. \<not> P x) (take ?i v) @ filter (\<lambda>x. \<not> P x) (v ! ?i # drop (Suc ?i) v)"
    by (subst split) (simp only: filter_append)
  with hit have f: "filter (\<lambda>x. \<not> P x) v = take ?i v @ filter (\<lambda>x. \<not> P x) (drop (Suc ?i) v)"
    by (simp add: find_if_prefix)
  have len: "length (filter (\<lambda>x. \<not> P x) v) = ?i + length (filter (\<lambda>x. \<not> P x) (drop (Suc ?i) v))"
    using lt by (subst f) simp
  from lt have "Suc ?i \<le> length v" by simp
  from remove_loop_inv [OF lessI this, of P] False lt show ?thesis
    unfolding remove_if_def Let_def len by (simp add: f [symmetric] len [symmetric])
qed

text \<open>
  What \<^verbatim>\<open>deattach_sink\<close> does to the node's own vector. When no entry matches, the
  position given to \<^verbatim>\<open>erase\<close> is the end of the vector. When the call returns, the
  vector has lost exactly one slot: the entries that do not match come first, in their
  old order, and one slot fewer than there were matching entries follows them. With
  exactly one matching entry and no children the result is the vector without it.
\<close>

lemma deattach_sink_absent_general:
  assumes "list_all (\<lambda>w. \<not> equals s w) ss"
  shows "deattach_sink s (Logger nm p ss cs) = Inl Undefined_Behaviour"
proof -
  from assms have "find_if (\<lambda>w. equals s w) ss = length ss"
    by (simp add: find_if_none)
  then show ?thesis
    by (simp add: remove_if_def vector_erase_def)
qed

lemma deattach_sink_one_slot:
  assumes "deattach_sink s (Logger nm p ss cs) = Inr n'"
  shows "length (sinks n') = length ss - 1
    \<and> take (length (filter (\<lambda>w. \<not> equals s w) ss)) (sinks n') = filter (\<lambda>w. \<not> equals s w) ss"
proof -
  let ?k = "length (filter (\<lambda>w. \<not> equals s w) ss)"
  obtain v' where v': "remove_if (\<lambda>w. equals s w) ss = (?k, v')" "length v' = length ss"
    "take ?k v' = filter (\<lambda>w. \<not> equals s w) ss"
    using remove_if_spec [of "\<lambda>w. equals s w" ss] by blast
  from assms v' have lt: "?k < length ss"
    by (auto simp: vector_erase_def split: if_splits)
  with assms v' have "sinks n' = take ?k v' @ drop (Suc ?k) v'"
    by (auto simp: vector_erase_def split: sum.splits)
  with v' lt show ?thesis
    by simp
qed

lemma deattach_sink_held_once:
  assumes "length (filter (\<lambda>w. equals s w) ss) = 1"
  shows "deattach_sink s (Logger nm p ss []) = Inr (Logger nm p (filter (\<lambda>w. \<not> equals s w) ss) [])"
proof -
  let ?k = "length (filter (\<lambda>w. \<not> equals s w) ss)"
  obtain v' where v': "remove_if (\<lambda>w. equals s w) ss = (?k, v')" "length v' = length ss"
    "take ?k v' = filter (\<lambda>w. \<not> equals s w) ss"
    using remove_if_spec [of "\<lambda>w. equals s w" ss] by blast
  have "length ss = length (filter (\<lambda>w. equals s w) ss) + ?k"
    by (rule sum_length_filter_compl [symmetric])
  with assms have k: "length ss = Suc ?k" by simp
  with v' have "drop (Suc ?k) v' = []" by simp
  with v' k show ?thesis
    by (simp add: vector_erase_def)
qed

lemma deattach_sink_twice_held:
  "deattach_sink (Some 1) (Logger ''/app'' True [Some 1, Some 1] []) =
     Inr (Logger ''/app'' True [Some 1] [])"
  by (simp add: remove_if_def remove_loop.simps equals_iff vector_erase_def)

lemma deattach_sink_absent:
  "deattach_sink (Some 1) (Logger ''/app'' True [Some 2] []) = Inl Undefined_Behaviour
   \<and> deattach_sink (Some 1) (Logger ''/app'' True [] []) = Inl Undefined_Behaviour"
  by (simp add: remove_if_def remove_loop.simps equals_iff vector_erase_def)

text \<open>
  Claim C4. A sink subscribes to \<^verbatim>\<open>app\<close> twice and unsubscribes from it once:
  \<^verbatim>\<open>deattach_sink\<close> returns with one of the two entries still in the vector of
  \<^verbatim>\<open>app\<close>, so the tree after the call is the tree after the first subscription.
\<close>

theorem unsubscribe_twice_subscribed:
  "subscribe_path (Some 1) ''app'' (Logger [] True [] []) =
     Inr (Logger [] True [] [(''app'', Logger ''/app'' True [Some 1] [])])
   \<and> subscribe_path (Some 1) ''app'' (Logger [] True [] [(''app'', Logger ''/app'' True [Some 1] [])]) =
     Inr (Logger [] True [] [(''app'', Logger ''/app'' True [Some 1, Some 1] [])])
   \<and> unsubscribe_path (Some 1) ''app''
       (Logger [] True [] [(''app'', Logger ''/app'' True [Some 1, Some 1] [])]) =
     Inr (Logger [] True [] [(''app'', Logger ''/app'' True [Some 1] [])])"
  by (simp add: subscribe_path_def unsubscribe_path_def subscribe_def unsubscribe_def
      logging_get_def get_app_fresh get_app_present
      remove_if_def remove_loop.simps equals_iff vector_erase_def)

text \<open>
  Claim C5. Unsubscribing a sink from a node whose vector, or the vector of one of
  whose children, has no entry for it: the sink subscribes to \<^verbatim>\<open>app\<close>, the child
  \<^verbatim>\<open>app/net\<close> is created afterwards, and the sink unsubscribes from \<^verbatim>\<open>app\<close>;
  or a second sink that never subscribed unsubscribes from \<^verbatim>\<open>app\<close>, with another
  sink or with none in the vector. Each time \<^verbatim>\<open>deattach_sink\<close> erases at the end
  position, which is undefined behaviour, instead of leaving the vector as it is.
\<close>

theorem unsubscribe_not_subscribed:
  "subscribe_path (Some 1) ''app'' (Logger [] True [] []) =
     Inr (Logger [] True [] [(''app'', Logger ''/app'' True [Some 1] [])])
   \<and> logging_get ''app/net'' (Logger [] True [] [(''app'', Logger ''/app'' True [Some 1] [])]) =
     Inr (Logger [] True []
            [(''app'', Logger ''/app'' True [Some 1] [(''net'', Logger ''/app/net'' True [] [])])],
          Some [''app'', ''net''])
   \<and> unsubscribe_path (Some 1) ''app''
       (Logger [] True []
          [(''app'', Logger ''/app'' True [Some 1] [(''net'', Logger ''/app/net'' True [] [])])]) =
     Inl Undefined_Behaviour
   \<and> unsubscribe_path (Some 2) ''app'' (Logger [] True [] [(''app'', Logger ''/app'' True [Some 1] [])]) =
     Inl Undefined_Behaviour
   \<and> unsubscribe_path (Some 2) ''app'' (Logger [] True [] []) = Inl Undefined_Behaviour"
  by (simp add: subscribe_path_def unsubscribe_path_def subscribe_def unsubscribe_def
      logging_get_def get_app_fresh get_app_present get_app_net
      remove_if_def remove_loop.simps equals_iff vector_erase_def)

section \<open>Properties of the concrete sinks\<close>

lemma PrintSink_handle_rejected:
  "\<not> fst (Filterer_filter filters log) \<Longrightarrow> PrintSink_handle with_color filters log = ([], None)"
  by (simp add: PrintSink_handle_def)

text \<open>
  Claim C9. With a filter chain that rejects the record, \<^verbatim>\<open>PrintSink::handle\<close>
  writes nothing, while \<^verbatim>\<open>FileSink::handle\<close> writes the whole line and
  \<^verbatim>\<open>ZMQPubSink::handle\<close> sends the message: these two never ask their chain.
\<close>

theorem FileSink_ZMQPubSink_ignore_filters:
  "fst (Filterer_filter [\<lambda>_. False] \<lparr>source = ''/app'', time = t, level = INFO, message = ''hi''\<rparr>) = False
   \<and> PrintSink_handle False [\<lambda>_. False]
        \<lparr>source = ''/app'', time = t, level = INFO, message = ''hi''\<rparr> = ([], None)
   \<and> FileSink_handle False [\<lambda>_. False]
        \<lparr>source = ''/app'', time = t, level = INFO, message = ''hi''\<rparr> =
       ([Fixed 12 8 t, Str '' '', Str ''['', Str ''INFO'', Str ''] '', Str ''hi'', Str '' '',
         Str ''('', Str ''app'', Str [CHR '')'', CHR 0x0A]], None)
   \<and> ZMQPubSink_handle dump topic [\<lambda>_. False]
        \<lparr>source = ''/app'', time = t, level = INFO, message = ''hi''\<rparr> =
       ([Multipart [topic, dump \<lparr>source = ''/app'', time = t, level = INFO, message = ''hi''\<rparr>]],
        None)"
  by (simp add: Filterer_filter_def PrintSink_handle_def FileSink_handle_def ZMQPubSink_handle_def
      LogLevel_toStr_def substr_def npos_def unsigned_minus_1_eq_mask mask_eq_exp_minus_1)

end
